theory Spec2Isabelle
  imports Complex_Main "HOL-Library.Sublist" "HOL-Library.Log_Nat"
begin

section \<open>The search controller of App.jsx\<close>

subsection \<open>Strings\<close>

text \<open>
  A JavaScript string is a sequence of UTF-16 code units. A code unit is a natural number
  here (below \<open>2 ^ 16\<close> in every string of the program), and \<open>js\<close> writes a string of
  ASCII characters as the string of their code units.
\<close>

type_synonym code_unit = nat

type_synonym js_string = "code_unit list"

definition js :: "string \<Rightarrow> js_string" where
  "js s = map of_char s"

text \<open>
  A JavaScript value that is either a string or \<^verbatim>\<open>null\<close> is a \<open>js_string option\<close>;
  such a value is truthy when it is a non-empty string.
\<close>

definition truthy :: "js_string option \<Rightarrow> bool" where
  "truthy t = (case t of None \<Rightarrow> False | Some v \<Rightarrow> v \<noteq> [])"

text \<open>
  \<^verbatim>\<open>String.prototype.trim\<close> removes white space and line terminators from both ends
  (ECMAScript, TrimString). White space is TAB, VT, FF, the byte order mark U+FEFF and the
  space separators of Unicode (category Zs: U+0020, U+00A0, U+1680, U+2000 to U+200A,
  U+202F, U+205F, U+3000); the line terminators are LF, CR, U+2028 and U+2029. Each of
  them is one code unit.
\<close>

definition is_whitespace :: "code_unit \<Rightarrow> bool" where
  "is_whitespace c =
     (c \<in> {0x0009, 0x000B, 0x000C, 0xFEFF,
            0x0020, 0x00A0, 0x1680, 0x202F, 0x205F, 0x3000,
            0x000A, 0x000D, 0x2028, 0x2029}
      \<or> (0x2000 \<le> c \<and> c \<le> 0x200A))"

definition trim :: "js_string \<Rightarrow> js_string" where
  "trim s = rev (dropWhile is_whitespace (rev (dropWhile is_whitespace s)))"

subsection \<open>Data\<close>

text \<open>The filter object of the form (four strings, empty when unset).\<close>

record search_filters =
  minDate :: js_string
  maxDate :: js_string
  minViews :: js_string
  channelName :: js_string

text \<open>One entry of \<^verbatim>\<open>data.videos\<close>; the field \<^verbatim>\<open>id\<close> is called \<open>video_id\<close> here.\<close>

record video =
  video_id :: js_string
  title :: js_string
  description :: js_string
  channel_title :: js_string
  published_at :: js_string
  view_count :: nat
  thumbnail :: js_string
  match_type :: "js_string list"
  transcript_matches :: "js_string list"

text \<open>The JSON body of a successful response.\<close>

record page =
  videos :: "video list"
  next_page_token :: "js_string option"
  total_results :: nat

text \<open>The \<^verbatim>\<open>useState\<close> cells of \<^verbatim>\<open>App\<close>.\<close>

record app_state =
  keyword :: js_string
  results :: "video list"
  loading :: bool
  error :: "js_string option"
  nextPageToken :: "js_string option"
  totalResults :: nat
  filters :: search_filters

definition initial_filters :: search_filters where
  "initial_filters = \<lparr>minDate = [], maxDate = [], minViews = [], channelName = []\<rparr>"

definition initial_state :: app_state where
  "initial_state =
     \<lparr>keyword = [], results = [], loading = False, error = None,
      nextPageToken = None, totalResults = 0, filters = initial_filters\<rparr>"

text \<open>
  Both handlers are \<^verbatim>\<open>async\<close>: each runs up to its \<^verbatim>\<open>await fetch(...)\<close>, and its
  remainder runs when the fetch settles. A fetch in flight is recorded with the query it
  was issued with and with what the suspended remainder of the handler still reads from
  its closure: nothing for \<^verbatim>\<open>handleSearch\<close>, the captured \<^verbatim>\<open>results\<close> array for
  \<^verbatim>\<open>loadMore\<close> (line 82 spreads the \<^verbatim>\<open>results\<close> of the render in which the handler
  was called).
\<close>

type_synonym query = "(js_string \<times> js_string) list"

datatype request =
    SearchRequest query
  | MoreRequest query "video list"

text \<open>
  How a fetch settles: a response with \<^verbatim>\<open>response.ok\<close> and its JSON body, a response
  that is not ok (with its status text), or a rejected promise (with the message of the
  error).
\<close>

datatype outcome =
    ResponseOk page
  | ResponseNotOk js_string
  | Rejected js_string

record system =
  ui :: app_state
  inflight :: "request list"

definition initial_system :: system where
  "initial_system = \<lparr>ui = initial_state, inflight = []\<rparr>"

subsection \<open>Building the query\<close>

text \<open>Lines 38 to 41 and 70 to 73: a filter is appended only when its string is non-empty.\<close>

definition filter_params :: "search_filters \<Rightarrow> query" where
  "filter_params f =
     (if minDate f \<noteq> [] then [(js ''min_date'', minDate f)] else []) @
     (if maxDate f \<noteq> [] then [(js ''max_date'', maxDate f)] else []) @
     (if minViews f \<noteq> [] then [(js ''min_views'', minViews f)] else []) @
     (if channelName f \<noteq> [] then [(js ''channel_name'', channelName f)] else [])"

definition search_query :: "js_string \<Rightarrow> search_filters \<Rightarrow> query" where
  "search_query searchKeyword searchFilters =
     (js ''keyword'', searchKeyword) # filter_params searchFilters"

text \<open>
  Lines 66 to 73. The guard of line 61 has passed when this runs, so the token is a
  non-empty string; the \<open>None\<close> case is never taken.
\<close>

definition more_query :: "app_state \<Rightarrow> query" where
  "more_query st =
     (js ''keyword'', keyword st)
       # (js ''page_token'', case nextPageToken st of None \<Rightarrow> [] | Some t \<Rightarrow> t)
       # filter_params (filters st)"

subsection \<open>handleSearch\<close>

text \<open>Lines 24 to 43: the guard, the six setters, and the fetch.\<close>

definition handleSearch :: "js_string \<Rightarrow> search_filters \<Rightarrow> system \<Rightarrow> system" where
  "handleSearch searchKeyword searchFilters s =
     (if trim searchKeyword = [] then s
      else \<lparr>ui = (ui s)\<lparr>keyword := searchKeyword, filters := searchFilters,
                          loading := True, error := None, results := [],
                          nextPageToken := None\<rparr>,
            inflight = inflight s @ [SearchRequest (search_query searchKeyword searchFilters)]\<rparr>)"

text \<open>The message of the error caught at lines 53 and 84.\<close>

fun failure_message :: "outcome \<Rightarrow> js_string option" where
  "failure_message (ResponseOk data) = None"
| "failure_message (ResponseNotOk statusText) = Some (js ''Error: '' @ statusText)"
| "failure_message (Rejected message) = Some message"

text \<open>Lines 45 to 57: what runs once the fetch of \<^verbatim>\<open>handleSearch\<close> has settled.\<close>

fun handleSearch_settled :: "outcome \<Rightarrow> app_state \<Rightarrow> app_state" where
  "handleSearch_settled (ResponseOk data) st =
     st\<lparr>results := videos data, nextPageToken := next_page_token data,
        totalResults := total_results data, loading := False\<rparr>"
| "handleSearch_settled (ResponseNotOk statusText) st =
     st\<lparr>error := Some (js ''Error: '' @ statusText), loading := False\<rparr>"
| "handleSearch_settled (Rejected message) st =
     st\<lparr>error := Some message, loading := False\<rparr>"

subsection \<open>loadMore\<close>

text \<open>Lines 60 to 75: the guard, \<^verbatim>\<open>setLoading(true)\<close>, and the fetch.\<close>

definition loadMore :: "system \<Rightarrow> system" where
  "loadMore s =
     (if \<not> truthy (nextPageToken (ui s)) \<or> loading (ui s) then s
      else \<lparr>ui = (ui s)\<lparr>loading := True\<rparr>,
            inflight = inflight s @ [MoreRequest (more_query (ui s)) (results (ui s))]\<rparr>)"

text \<open>
  Lines 77 to 88: what runs once the fetch of \<^verbatim>\<open>loadMore\<close> has settled; \<open>captured\<close>
  is the \<^verbatim>\<open>results\<close> array of the closure.
\<close>

fun loadMore_settled :: "video list \<Rightarrow> outcome \<Rightarrow> app_state \<Rightarrow> app_state" where
  "loadMore_settled captured (ResponseOk data) st =
     st\<lparr>results := captured @ videos data, nextPageToken := next_page_token data,
        loading := False\<rparr>"
| "loadMore_settled captured (ResponseNotOk statusText) st =
     st\<lparr>error := Some (js ''Error: '' @ statusText), loading := False\<rparr>"
| "loadMore_settled captured (Rejected message) st =
     st\<lparr>error := Some message, loading := False\<rparr>"

subsection \<open>Events\<close>

text \<open>
  The component reacts to three kinds of events: the form calls \<^verbatim>\<open>onSearch\<close>, the
  button calls \<^verbatim>\<open>loadMore\<close>, and the fetch at position \<open>i\<close> of the fetches in flight
  settles. Settling a fetch that does not exist is not an event of the program and
  changes nothing. The component is rendered between any two events, so a handler that
  is called reads the current state; what it reads after its \<^verbatim>\<open>await\<close> is what it
  read when it was called.
\<close>

datatype event =
    StartSearch js_string search_filters
  | LoadMore
  | Settle nat outcome

fun resume :: "request \<Rightarrow> outcome \<Rightarrow> app_state \<Rightarrow> app_state" where
  "resume (SearchRequest q) out st = handleSearch_settled out st"
| "resume (MoreRequest q captured) out st = loadMore_settled captured out st"

definition remove_nth :: "nat \<Rightarrow> 'a list \<Rightarrow> 'a list" where
  "remove_nth i xs = take i xs @ drop (Suc i) xs"

definition settle :: "nat \<Rightarrow> outcome \<Rightarrow> system \<Rightarrow> system" where
  "settle i out s =
     (if i < length (inflight s)
      then \<lparr>ui = resume (inflight s ! i) out (ui s), inflight = remove_nth i (inflight s)\<rparr>
      else s)"

fun step :: "event \<Rightarrow> system \<Rightarrow> system" where
  "step (StartSearch searchKeyword searchFilters) s = handleSearch searchKeyword searchFilters s"
| "step LoadMore s = loadMore s"
| "step (Settle i out) s = settle i out s"

fun run :: "event list \<Rightarrow> system \<Rightarrow> system" where
  "run [] s = s"
| "run (e # es) s = run es (step e s)"

subsection \<open>The form's own guard (SearchForm.jsx)\<close>

record form_state =
  form_keyword :: js_string
  form_minDate :: js_string
  form_maxDate :: js_string
  form_minViews :: js_string
  form_channelName :: js_string

text \<open>Lines 11 to 24 of SearchForm.jsx, with \<^verbatim>\<open>onSearch = handleSearch\<close>.\<close>

definition handleSubmit :: "form_state \<Rightarrow> system \<Rightarrow> system" where
  "handleSubmit form s =
     (if trim (form_keyword form) = [] then s
      else handleSearch (form_keyword form)
             \<lparr>minDate = form_minDate form, maxDate = form_maxDate form,
              minViews = form_minViews form, channelName = form_channelName form\<rparr> s)"

subsection \<open>Scenarios and invariants used by the theorems\<close>

text \<open>
  A search session: one \<^verbatim>\<open>handleSearch\<close> whose fetch returns the page \<open>p\<close>, then one
  \<^verbatim>\<open>loadMore\<close> per page of \<open>ps\<close>, each settled with that page before the next call.
  \<open>n\<close> is the position of the session's fetch among the fetches in flight.
\<close>

fun more_pages :: "nat \<Rightarrow> page list \<Rightarrow> event list" where
  "more_pages n [] = []"
| "more_pages n (p # ps) = LoadMore # Settle n (ResponseOk p) # more_pages n ps"

definition session ::
  "nat \<Rightarrow> js_string \<Rightarrow> search_filters \<Rightarrow> page \<Rightarrow> page list \<Rightarrow> event list" where
  "session n searchKeyword searchFilters p ps =
     StartSearch searchKeyword searchFilters # Settle n (ResponseOk p) # more_pages n ps"

text \<open>
  \<open>quiet_starts es s\<close>: along the events \<open>es\<close> from \<open>s\<close>, every \<^verbatim>\<open>handleSearch\<close> is
  called while no fetch is in flight.
\<close>

fun quiet_starts :: "event list \<Rightarrow> system \<Rightarrow> bool" where
  "quiet_starts [] s = True"
| "quiet_starts (StartSearch k f # es) s =
     (inflight s = [] \<and> quiet_starts es (step (StartSearch k f) s))"
| "quiet_starts (e # es) s = quiet_starts es (step e s)"

definition single_flight :: "system \<Rightarrow> bool" where
  "single_flight s =
     (length (inflight s) \<le> 1 \<and> (loading (ui s) \<longleftrightarrow> inflight s \<noteq> []))"

text \<open>Concrete data for the closed theorems.\<close>

definition example_video :: "js_string \<Rightarrow> video" where
  "example_video i =
     \<lparr>video_id = i, title = js ''Nike review'', description = js ''shoes'',
      channel_title = js ''ch'',
      published_at = js ''2024-01-01T00:00:00Z'', view_count = 1500,
      thumbnail = js ''t.jpg'',
      match_type = [js ''title''], transcript_matches = []\<rparr>"

definition page_one :: page where
  "page_one = \<lparr>videos = [example_video (js ''a''), example_video (js ''b'')],
               next_page_token = Some (js ''t1''), total_results = 3\<rparr>"

definition page_two :: page where
  "page_two = \<lparr>videos = [example_video (js ''c'')], next_page_token = None, total_results = 3\<rparr>"

section \<open>Theorems about the search controller\<close>

subsection \<open>Auxiliary facts\<close>

lemma trim_blank:
  assumes "\<forall>c\<in>set s. is_whitespace c"
  shows "trim s = []"
proof -
  have blank: "dropWhile is_whitespace s = []"
    using assms by simp
  show ?thesis unfolding trim_def blank by simp
qed

lemma settle_last:
  "settle (length rs) out \<lparr>ui = st, inflight = rs @ [r]\<rparr> = \<lparr>ui = resume r out st, inflight = rs\<rparr>"
  by (simp add: settle_def remove_nth_def)

lemma loadMore_issues:
  "truthy (nextPageToken (ui s)) \<Longrightarrow> \<not> loading (ui s) \<Longrightarrow>
   loadMore s = \<lparr>ui = (ui s)\<lparr>loading := True\<rparr>,
                inflight = inflight s @ [MoreRequest (more_query (ui s)) (results (ui s))]\<rparr>"
  by (simp add: loadMore_def)

lemma loadMore_cycle_ok:
  assumes "truthy (nextPageToken (ui s))" and "\<not> loading (ui s)"
  shows "settle (length (inflight s)) (ResponseOk p) (loadMore s) =
         \<lparr>ui = (ui s)\<lparr>loading := False, results := results (ui s) @ videos p,
                       nextPageToken := next_page_token p\<rparr>,
          inflight = inflight s\<rparr>"
  using assms by (simp add: loadMore_issues settle_last)

lemma more_pages_run:
  assumes "\<not> loading (ui s)"
    and "ps \<noteq> [] \<longrightarrow> truthy (nextPageToken (ui s))"
    and "\<forall>p\<in>set (butlast ps). truthy (next_page_token p)"
  shows "results (ui (run (more_pages (length (inflight s)) ps) s)) =
           results (ui s) @ concat (map videos ps)
       \<and> totalResults (ui (run (more_pages (length (inflight s)) ps) s)) = totalResults (ui s)
       \<and> inflight (run (more_pages (length (inflight s)) ps) s) = inflight s
       \<and> \<not> loading (ui (run (more_pages (length (inflight s)) ps) s))"
  using assms
proof (induction ps arbitrary: s)
  case Nil
  then show ?case by simp
next
  case (Cons p ps)
  let ?s1 = "settle (length (inflight s)) (ResponseOk p) (loadMore s)"
  have tok: "truthy (nextPageToken (ui s))" using Cons.prems(2) by simp
  have s1: "?s1 = \<lparr>ui = (ui s)\<lparr>loading := False, results := results (ui s) @ videos p,
                       nextPageToken := next_page_token p\<rparr>,
          inflight = inflight s\<rparr>"
    using tok Cons.prems(1) by (rule loadMore_cycle_ok)
  have len: "length (inflight ?s1) = length (inflight s)" by (simp add: s1)
  have a: "\<not> loading (ui ?s1)" by (simp add: s1)
  have b: "ps \<noteq> [] \<longrightarrow> truthy (nextPageToken (ui ?s1))"
    using Cons.prems(3) by (auto simp add: s1)
  have c: "\<forall>p\<in>set (butlast ps). truthy (next_page_token p)"
    using Cons.prems(3) by (auto split: if_splits)
  have run_eq: "run (more_pages (length (inflight s)) (p # ps)) s
              = run (more_pages (length (inflight ?s1)) ps) ?s1"
    by (simp only: len more_pages.simps run.simps step.simps)
  show ?case
    unfolding run_eq using Cons.IH [OF a b c] by (simp add: s1)
qed

lemma resume_not_loading: "\<not> loading (resume r out st)"
  by (cases r; cases out) simp_all

lemma single_flight_settle:
  assumes "single_flight s"
  shows "single_flight (settle i out s)"
proof (cases "i < length (inflight s)")
  case True
  with assms have "length (inflight s) = 1" and "i = 0"
    by (auto simp add: single_flight_def)
  then obtain r where "inflight s = [r]"
    by (cases "inflight s") auto
  with \<open>i = 0\<close> show ?thesis
    by (simp add: single_flight_def settle_def remove_nth_def resume_not_loading)
next
  case False
  with assms show ?thesis by (simp add: settle_def)
qed

lemma single_flight_loadMore:
  assumes "single_flight s"
  shows "single_flight (loadMore s)"
  using assms by (auto simp add: single_flight_def loadMore_def)

lemma single_flight_handleSearch:
  assumes "single_flight s" and "inflight s = []"
  shows "single_flight (handleSearch k f s)"
  using assms by (auto simp add: single_flight_def handleSearch_def)

lemma single_flight_run:
  assumes "single_flight s" and "quiet_starts es s"
  shows "single_flight (run es s)"
  using assms
proof (induction es arbitrary: s)
  case Nil
  then show ?case by simp
next
  case (Cons e es)
  have "single_flight (step e s) \<and> quiet_starts es (step e s)"
  proof (cases e)
    case (StartSearch k f)
    with Cons.prems show ?thesis by (simp add: single_flight_handleSearch)
  next
    case LoadMore
    with Cons.prems show ?thesis by (simp add: single_flight_loadMore)
  next
    case (Settle i out)
    with Cons.prems show ?thesis by (simp add: single_flight_settle)
  qed
  then show ?case using Cons.IH by simp
qed

subsection \<open>Pagination appends pages in arrival order\<close>

text \<open>
  C1. In a session of one successful search and any number of successful load-more calls
  (every page but the last carries a token, so that each call is issued), the results list
  is the concatenation of the pages' video arrays in arrival order: nothing is dropped,
  reordered or deduplicated.
\<close>

theorem loadMore_appends_pages:
  assumes "trim searchKeyword \<noteq> []"
    and "\<forall>q\<in>set (butlast (p # ps)). truthy (next_page_token q)"
  shows "results (ui (run (session (length (inflight s)) searchKeyword searchFilters p ps) s)) =
           concat (map videos (p # ps))"
proof -
  let ?n = "length (inflight s)"
  let ?s1 = "settle ?n (ResponseOk p) (handleSearch searchKeyword searchFilters s)"
  have s1: "?s1 = \<lparr>ui = (ui s)\<lparr>keyword := searchKeyword, filters := searchFilters,
                          error := None, results := videos p,
                          nextPageToken := next_page_token p,
                          totalResults := total_results p, loading := False\<rparr>,
                  inflight = inflight s\<rparr>"
    using assms(1) by (simp add: handleSearch_def settle_last)
  have len: "length (inflight ?s1) = ?n" by (simp add: s1)
  have a: "\<not> loading (ui ?s1)" by (simp add: s1)
  have b: "ps \<noteq> [] \<longrightarrow> truthy (nextPageToken (ui ?s1))"
    using assms(2) by (auto simp add: s1)
  have c: "\<forall>q\<in>set (butlast ps). truthy (next_page_token q)"
    using assms(2) by (auto split: if_splits)
  have run_eq: "run (session ?n searchKeyword searchFilters p ps) s
              = run (more_pages (length (inflight ?s1)) ps) ?s1"
    by (simp only: len session_def run.simps step.simps)
  show ?thesis
    unfolding run_eq using more_pages_run [OF a b c] by (simp add: s1)
qed

theorem loadMore_appends_pages_witness:
  "trim (js ''nike'') \<noteq> []
   \<and> list_all (\<lambda>q. truthy (next_page_token q)) (butlast [page_one, page_two])
   \<and> results (ui (run (session 0 (js ''nike'') initial_filters page_one [page_two]) initial_system))
       = [example_video (js ''a''), example_video (js ''b''), example_video (js ''c'')]"
  using loadMore_appends_pages [of "js ''nike''" page_one "[page_two]" initial_system initial_filters]
  by (simp add: trim_def is_whitespace_def js_def truthy_def page_one_def page_two_def
      initial_system_def)

subsection \<open>Fetches in flight\<close>

text \<open>
  C3, as the code has it. \<^verbatim>\<open>handleSearch\<close> does not look at \<^verbatim>\<open>loading\<close>: a second
  search started while the first is loading puts a second fetch in flight.
\<close>

theorem two_searches_two_fetches:
  "loading (ui (run [StartSearch (js ''a'') initial_filters] initial_system))
   \<and> length (inflight (run [StartSearch (js ''a'') initial_filters, StartSearch (js ''b'') initial_filters]
                 initial_system)) = 2"
  by (simp add: handleSearch_def trim_def is_whitespace_def js_def initial_system_def)

text \<open>
  C3, amended. In every state reached from the initial one by events in which each search
  is started while no fetch is in flight, at most one fetch is in flight, and \<^verbatim>\<open>loading\<close>
  is true exactly when there is one; \<^verbatim>\<open>loadMore\<close> never adds a second fetch there.
\<close>

theorem one_fetch_when_searches_do_not_overlap:
  assumes "quiet_starts es initial_system"
  shows "length (inflight (run es initial_system)) \<le> 1
       \<and> (loading (ui (run es initial_system)) \<longleftrightarrow> inflight (run es initial_system) \<noteq> [])"
proof -
  have "single_flight initial_system"
    by (simp add: single_flight_def initial_system_def initial_state_def)
  then have "single_flight (run es initial_system)"
    using assms by (rule single_flight_run)
  then show ?thesis
    by (simp add: single_flight_def)
qed

theorem one_fetch_when_searches_do_not_overlap_witness:
  "quiet_starts [StartSearch (js ''nike'') initial_filters, Settle 0 (ResponseOk page_one), LoadMore,
                 Settle 0 (ResponseOk page_two), StartSearch (js ''puma'') initial_filters]
     initial_system
   \<and> length (inflight (run [StartSearch (js ''nike'') initial_filters, Settle 0 (ResponseOk page_one),
         LoadMore, Settle 0 (ResponseOk page_two), StartSearch (js ''puma'') initial_filters]
        initial_system)) \<le> 1"
  using one_fetch_when_searches_do_not_overlap
    [of "[StartSearch (js ''nike'') initial_filters, Settle 0 (ResponseOk page_one), LoadMore,
          Settle 0 (ResponseOk page_two), StartSearch (js ''puma'') initial_filters]"]
  by (simp add: handleSearch_def trim_def is_whitespace_def js_def initial_system_def settle_def
      remove_nth_def loadMore_def truthy_def page_one_def initial_state_def)

subsection \<open>The request cycle\<close>

text \<open>
  C4, evaluated on the code. \<^verbatim>\<open>loadMore\<close> never calls \<^verbatim>\<open>setError(null)\<close>. After a
  failed load-more, the next load-more starts with \<^verbatim>\<open>loading\<close> true and the old error
  still set, and when it succeeds the new page is appended while the error stays.
\<close>

theorem loadMore_keeps_stale_error:
  "loading (ui (run [StartSearch (js ''nike'') initial_filters, Settle 0 (ResponseOk page_one),
                     LoadMore, Settle 0 (ResponseNotOk (js ''Internal Server Error'')), LoadMore]
                  initial_system))
   \<and> error (ui (run [StartSearch (js ''nike'') initial_filters, Settle 0 (ResponseOk page_one),
                     LoadMore, Settle 0 (ResponseNotOk (js ''Internal Server Error'')), LoadMore]
                  initial_system)) = Some (js ''Error: Internal Server Error'')
   \<and> \<not> loading (ui (run [StartSearch (js ''nike'') initial_filters, Settle 0 (ResponseOk page_one),
                     LoadMore, Settle 0 (ResponseNotOk (js ''Internal Server Error'')), LoadMore,
                     Settle 0 (ResponseOk page_two)]
                  initial_system))
   \<and> error (ui (run [StartSearch (js ''nike'') initial_filters, Settle 0 (ResponseOk page_one),
                     LoadMore, Settle 0 (ResponseNotOk (js ''Internal Server Error'')), LoadMore,
                     Settle 0 (ResponseOk page_two)]
                  initial_system)) = Some (js ''Error: Internal Server Error'')
   \<and> results (ui (run [StartSearch (js ''nike'') initial_filters, Settle 0 (ResponseOk page_one),
                     LoadMore, Settle 0 (ResponseNotOk (js ''Internal Server Error'')), LoadMore,
                     Settle 0 (ResponseOk page_two)]
                  initial_system)) = videos page_one @ videos page_two"
  by (simp add: handleSearch_def trim_def is_whitespace_def js_def initial_system_def settle_def
      remove_nth_def loadMore_def truthy_def page_one_def initial_state_def)

subsection \<open>Guards\<close>

text \<open>
  C5. A keyword that is empty or consists only of characters that \<^verbatim>\<open>trim\<close> removes
  (every white space and line terminator of ECMAScript) makes \<^verbatim>\<open>handleSearch\<close> return
  at once: the state and the fetches in flight are unchanged. The form's
  \<^verbatim>\<open>handleSubmit\<close> has the same guard in front of it.
\<close>

theorem startSearch_blank_keyword_noop:
  assumes "\<forall>c\<in>set searchKeyword. is_whitespace c"
  shows "handleSearch searchKeyword searchFilters s = s
       \<and> handleSubmit (form\<lparr>form_keyword := searchKeyword\<rparr>) s = s"
  using assms by (simp add: handleSearch_def handleSubmit_def trim_blank)

theorem startSearch_blank_keyword_noop_witness:
  "list_all is_whitespace [0x20, 0x00A0, 0x3000, 0xFEFF, 0x2028, 0x09]
   \<and> handleSearch [0x20, 0x00A0, 0x3000, 0xFEFF, 0x2028, 0x09] initial_filters initial_system
       = initial_system
   \<and> handleSearch [] initial_filters initial_system = initial_system"
  using startSearch_blank_keyword_noop
      [of "[0x20, 0x00A0, 0x3000, 0xFEFF, 0x2028, 0x09]" initial_filters initial_system]
    startSearch_blank_keyword_noop [of "[]" initial_filters initial_system]
  by (simp add: is_whitespace_def)

text \<open>
  C6. While \<^verbatim>\<open>loading\<close> is true, or while there is no next-page token, \<^verbatim>\<open>loadMore\<close>
  changes no field of the state and issues no fetch.
\<close>

theorem loadMore_guard_noop:
  assumes "loading (ui s) \<or> nextPageToken (ui s) = None"
  shows "loadMore s = s \<and> inflight (loadMore s) = inflight s"
  using assms by (auto simp add: loadMore_def truthy_def)

theorem loadMore_guard_noop_witness:
  "(loading (ui initial_system) \<or> nextPageToken (ui initial_system) = None)
   \<and> loadMore initial_system = initial_system"
  using loadMore_guard_noop [of initial_system]
  by (simp add: initial_system_def initial_state_def)

subsection \<open>A failed load-more\<close>

text \<open>
  C7. When the fetch of a \<^verbatim>\<open>loadMore\<close> call fails (a response that is not ok, or a
  rejected promise), the error is set and \<^verbatim>\<open>loading\<close> is false, and the results list
  and the next-page token are what they were before the call.
\<close>

theorem loadMore_failure_keeps_results:
  assumes "truthy (nextPageToken (ui s))" and "\<not> loading (ui s)"
    and "failure_message out = Some msg"
  shows "error (ui (settle (length (inflight s)) out (loadMore s))) = Some msg
       \<and> \<not> loading (ui (settle (length (inflight s)) out (loadMore s)))
       \<and> results (ui (settle (length (inflight s)) out (loadMore s))) = results (ui s)
       \<and> nextPageToken (ui (settle (length (inflight s)) out (loadMore s))) = nextPageToken (ui s)"
  using assms by (cases out) (simp_all add: loadMore_issues settle_last)

theorem loadMore_failure_keeps_results_witness:
  "truthy (nextPageToken (ui (run [StartSearch (js ''nike'') initial_filters,
                                     Settle 0 (ResponseOk page_one)] initial_system)))
   \<and> results (ui (run [StartSearch (js ''nike'') initial_filters, Settle 0 (ResponseOk page_one),
                       LoadMore, Settle 0 (ResponseNotOk (js ''Bad Gateway''))] initial_system))
       = [example_video (js ''a''), example_video (js ''b'')]
   \<and> nextPageToken (ui (run [StartSearch (js ''nike'') initial_filters,
                       Settle 0 (ResponseOk page_one),
                       LoadMore, Settle 0 (ResponseNotOk (js ''Bad Gateway''))] initial_system))
       = Some (js ''t1'')
   \<and> error (ui (run [StartSearch (js ''nike'') initial_filters, Settle 0 (ResponseOk page_one),
                       LoadMore, Settle 0 (ResponseNotOk (js ''Bad Gateway''))] initial_system))
       = Some (js ''Error: Bad Gateway'')
   \<and> \<not> loading (ui (run [StartSearch (js ''nike'') initial_filters, Settle 0 (ResponseOk page_one),
                       LoadMore, Settle 0 (ResponseNotOk (js ''Bad Gateway''))] initial_system))"
  using loadMore_failure_keeps_results
    [of "run [StartSearch (js ''nike'') initial_filters, Settle 0 (ResponseOk page_one)] initial_system"
        "ResponseNotOk (js ''Bad Gateway'')" "js ''Error: Bad Gateway''"]
  by (simp add: handleSearch_def trim_def is_whitespace_def js_def initial_system_def settle_def
      remove_nth_def truthy_def page_one_def initial_state_def)

text \<open>
  C10. A state with the error set and the token present is reached by a failed
  \<^verbatim>\<open>loadMore\<close>, and in it the guard of \<^verbatim>\<open>loadMore\<close> passes: a further call sets
  \<^verbatim>\<open>loading\<close> and issues a fetch for the same page, without a new search.
\<close>

theorem loadMore_retry_after_failure:
  "(\<exists>es i out. failure_message out \<noteq> None
       \<and> loadMore (run es initial_system) \<noteq> run es initial_system
       \<and> error (ui (run (es @ [LoadMore, Settle i out]) initial_system)) \<noteq> None
       \<and> truthy (nextPageToken (ui (run (es @ [LoadMore, Settle i out]) initial_system)))
       \<and> inflight (run (es @ [LoadMore, Settle i out]) initial_system) = []
       \<and> length (inflight (loadMore (run (es @ [LoadMore, Settle i out]) initial_system))) = 1)
   \<and> (truthy (nextPageToken (ui s)) \<and> \<not> loading (ui s) \<and> failure_message out = Some msg
        \<longrightarrow> error (ui (settle (length (inflight s)) out (loadMore s))) = Some msg
          \<and> truthy (nextPageToken (ui (settle (length (inflight s)) out (loadMore s))))
          \<and> loading (ui (loadMore (settle (length (inflight s)) out (loadMore s))))
          \<and> inflight (loadMore (settle (length (inflight s)) out (loadMore s)))
              = inflight s @ [MoreRequest (more_query (ui s)) (results (ui s))])"
proof (intro conjI impI)
  let ?es = "[StartSearch (js ''nike'') initial_filters, Settle 0 (ResponseOk page_one)]"
  let ?out = "ResponseNotOk (js ''Bad Gateway'')"
  have "failure_message ?out \<noteq> None
       \<and> loadMore (run ?es initial_system) \<noteq> run ?es initial_system
       \<and> error (ui (run (?es @ [LoadMore, Settle 0 ?out]) initial_system)) \<noteq> None
       \<and> truthy (nextPageToken (ui (run (?es @ [LoadMore, Settle 0 ?out]) initial_system)))
       \<and> inflight (run (?es @ [LoadMore, Settle 0 ?out]) initial_system) = []
       \<and> length (inflight (loadMore (run (?es @ [LoadMore, Settle 0 ?out]) initial_system))) = 1"
    by (simp add: handleSearch_def trim_def is_whitespace_def js_def initial_system_def settle_def
      remove_nth_def loadMore_def truthy_def page_one_def initial_state_def)
  then show "\<exists>es i out. failure_message out \<noteq> None
       \<and> loadMore (run es initial_system) \<noteq> run es initial_system
       \<and> error (ui (run (es @ [LoadMore, Settle i out]) initial_system)) \<noteq> None
       \<and> truthy (nextPageToken (ui (run (es @ [LoadMore, Settle i out]) initial_system)))
       \<and> inflight (run (es @ [LoadMore, Settle i out]) initial_system) = []
       \<and> length (inflight (loadMore (run (es @ [LoadMore, Settle i out]) initial_system))) = 1"
    by blast
next
  assume a: "truthy (nextPageToken (ui s)) \<and> \<not> loading (ui s) \<and> failure_message out = Some msg"
  let ?s1 = "settle (length (inflight s)) out (loadMore s)"
  have s1: "?s1 = \<lparr>ui = (ui s)\<lparr>error := Some msg, loading := False\<rparr>, inflight = inflight s\<rparr>"
    using a by (cases out) (simp_all add: loadMore_issues settle_last)
  show "error (ui ?s1) = Some msg" by (simp add: s1)
  show "truthy (nextPageToken (ui ?s1))" using a by (simp add: s1)
  show "loading (ui (loadMore ?s1))" unfolding s1 using a by (simp add: loadMore_def)
  show "inflight (loadMore ?s1) = inflight s @ [MoreRequest (more_query (ui s)) (results (ui s))]"
    unfolding s1 using a by (simp add: loadMore_def more_query_def)
qed

theorem loadMore_retry_after_failure_witness:
  "inflight (run [StartSearch (js ''nike'') initial_filters, Settle 0 (ResponseOk page_one),
                  LoadMore, Settle 0 (Rejected (js ''Failed to fetch'')), LoadMore] initial_system)
   = [MoreRequest [(js ''keyword'', js ''nike''), (js ''page_token'', js ''t1'')]
        [example_video (js ''a''), example_video (js ''b'')]]
   \<and> error (ui (run [StartSearch (js ''nike'') initial_filters, Settle 0 (ResponseOk page_one),
                  LoadMore, Settle 0 (Rejected (js ''Failed to fetch''))] initial_system))
     = Some (js ''Failed to fetch'')"
  using loadMore_retry_after_failure
    [of "run [StartSearch (js ''nike'') initial_filters, Settle 0 (ResponseOk page_one)] initial_system"
        "Rejected (js ''Failed to fetch'')" "js ''Failed to fetch''"]
  by (simp add: handleSearch_def trim_def is_whitespace_def js_def initial_system_def settle_def
      remove_nth_def truthy_def page_one_def initial_state_def loadMore_def more_query_def
      filter_params_def initial_filters_def)

section \<open>Highlighting in VideoCard.jsx\<close>

subsection \<open>highlightText\<close>

text \<open>
  Lines 20 to 33. The function calls two built-ins of the platform: line 23 compiles the
  text \<^verbatim>\<open>(\<close> keyword \<^verbatim>\<open>)\<close> as a regular expression with the flags \<^verbatim>\<open>gi\<close> and
  splits the text with it, and line 25 takes the lower case of a part and of the keyword.
  Both are parameters of \<open>highlightText\<close>, so that what is proved of it holds for the
  platform's own regular expressions and case tables:
  \<^item> \<open>split_gi pattern text\<close> is \<^verbatim>\<open>text.split(new RegExp(pattern, "gi"))\<close>: \<open>Inl\<close> an
    error that is thrown, or \<open>Inr\<close> the array, in which the capture of a group that took
    no part in a match is \<^verbatim>\<open>undefined\<close> (\<open>None\<close>). The result \<open>None\<close> is for a model
    of the built-in that does not cover the pattern or the text; the platform's own
    \<open>split\<close> never gives it.
  \<^item> \<open>toLowerCase\<close> is \<^verbatim>\<open>String.prototype.toLowerCase\<close>.

  A part whose lower case equals the keyword's becomes a \<^verbatim>\<open>span\<close> element around the
  part (the highlighted segment), any other part stays a plain string. Calling
  \<^verbatim>\<open>toLowerCase\<close> on \<^verbatim>\<open>undefined\<close> throws a TypeError. For an empty text the function
  returns the empty string, which renders nothing; it is the empty list here.
\<close>

datatype js_error = SyntaxError | TypeError

datatype node = is_Span: Span (node_text: js_string) | Text (node_text: js_string)

definition highlightText ::
  "(js_string \<Rightarrow> js_string \<Rightarrow> (js_error + js_string option list) option) \<Rightarrow>
   (js_string \<Rightarrow> js_string) \<Rightarrow> js_string \<Rightarrow> js_string \<Rightarrow> (js_error + node list) option" where
  "highlightText split_gi toLowerCase text kw =
     (if text = [] then Some (Inr [])
      else
        (case split_gi (js ''('' @ kw @ js '')'') text of
           None \<Rightarrow> None
         | Some (Inl err) \<Rightarrow> Some (Inl err)
         | Some (Inr parts) \<Rightarrow>
             (case those parts of
                None \<Rightarrow> Some (Inl TypeError)
              | Some strings \<Rightarrow>
                  Some (Inr (map (\<lambda>part. if toLowerCase part = toLowerCase kw
                                          then Span part else Text part)
                              strings)))))"

subsection \<open>The built-ins on ASCII\<close>

text \<open>
  To run \<open>highlightText\<close> on concrete inputs, the rest of this section models the two
  built-ins where that takes no table of Unicode and no full regular expression engine:
  for strings of ASCII code units, and for patterns made of ordinary characters, the dot
  and parentheses. On ASCII, \<^verbatim>\<open>toLowerCase\<close> moves the letters A to Z to a to z and
  leaves every other character.
\<close>

definition ascii_toLowerCase :: "js_string \<Rightarrow> js_string" where
  "ascii_toLowerCase s = map (\<lambda>c. if 65 \<le> c \<and> c \<le> 90 then c + 32 else c) s"

text \<open>
  With the flag \<^verbatim>\<open>i\<close>, two characters match when their canonical forms are equal, and
  the canonical form of an ASCII character is its upper case (ECMAScript, Canonicalize).
\<close>

definition ascii_Canonicalize :: "code_unit \<Rightarrow> code_unit" where
  "ascii_Canonicalize c = (if 97 \<le> c \<and> c \<le> 122 then c - 32 else c)"

text \<open>The dot matches every character but a line terminator.\<close>

definition is_line_terminator :: "code_unit \<Rightarrow> bool" where
  "is_line_terminator c = (c \<in> {0x000A, 0x000D, 0x2028, 0x2029})"

subsection \<open>The pattern\<close>

text \<open>
  The keyword is not escaped. In the patterns modelled, a character that is no syntax
  character stands for itself, a dot is the wildcard, and a pair of parentheses is a
  capturing group. A pattern whose parentheses do not pair up makes the constructor throw
  a SyntaxError. A pattern with another syntax character (backslash,
  \<^verbatim>\<open>^ $ * + ? [ ] { } |\<close>) or with a character outside ASCII is not modelled:
  \<open>new_RegExp\<close> is \<open>None\<close> for it.
\<close>

datatype rx = Chr code_unit | Any | Group "rx list"

definition outside_fragment :: "code_unit \<Rightarrow> bool" where
  "outside_fragment c = (c = 0x5C \<or> c \<in> set (js ''^$*+?[]{}|'') \<or> 128 \<le> c)"

text \<open>
  \<open>atom c\<close> is the term for a character that is no parenthesis.
  \<open>parse_groups cs cur stack\<close> reads the rest \<open>cs\<close> of the pattern; \<open>cur\<close> holds the
  terms of the group being read, last one first, and \<open>stack\<close> those of the groups around
  it.
\<close>

definition atom :: "code_unit \<Rightarrow> rx" where
  "atom c = (if c = of_char CHR ''.'' then Any else Chr c)"

fun parse_groups :: "js_string \<Rightarrow> rx list \<Rightarrow> rx list list \<Rightarrow> js_error + rx list" where
  "parse_groups [] cur [] = Inr (rev cur)"
| "parse_groups [] cur (outer # stack) = Inl SyntaxError"
| "parse_groups (c # cs) cur stack =
     (if c = of_char CHR ''('' then parse_groups cs [] (cur # stack)
      else if c = of_char CHR '')'' then
        (case stack of
           [] \<Rightarrow> Inl SyntaxError
         | outer # rest \<Rightarrow> parse_groups cs (Group (rev cur) # outer) rest)
      else parse_groups cs (atom c # cur) stack)"

definition new_RegExp :: "js_string \<Rightarrow> (js_error + rx list) option" where
  "new_RegExp pattern =
     (if \<exists>c\<in>set pattern. outside_fragment c then None
      else Some (parse_groups pattern [] []))"

subsection \<open>Matching at a position\<close>

text \<open>
  \<open>match_seq R S i\<close> matches the pattern \<open>R\<close> against the ASCII string \<open>S\<close> starting
  exactly at index \<open>i\<close>. A match gives the index where it ends and the captures as index
  pairs \<open>(from, to)\<close>, in the order of the opening parentheses. These patterns have no
  alternative and no quantifier, so there is nothing to backtrack and every group of a
  match has a capture.
\<close>

type_synonym span = "nat \<times> nat"

fun match_rx :: "rx \<Rightarrow> js_string \<Rightarrow> nat \<Rightarrow> (nat \<times> span list) option"
  and match_seq :: "rx list \<Rightarrow> js_string \<Rightarrow> nat \<Rightarrow> (nat \<times> span list) option" where
  "match_rx (Chr c) S i =
     (if i < length S \<and> ascii_Canonicalize (S ! i) = ascii_Canonicalize c
      then Some (Suc i, []) else None)"
| "match_rx Any S i =
     (if i < length S \<and> \<not> is_line_terminator (S ! i) then Some (Suc i, []) else None)"
| "match_rx (Group rs) S i =
     (case match_seq rs S i of
        None \<Rightarrow> None
      | Some (e, caps) \<Rightarrow> Some (e, (i, e) # caps))"
| "match_seq [] S i = Some (i, [])"
| "match_seq (r # rs) S i =
     (case match_rx r S i of
        None \<Rightarrow> None
      | Some (j, caps) \<Rightarrow>
          (case match_seq rs S j of
             None \<Rightarrow> None
           | Some (e, caps') \<Rightarrow> Some (e, caps @ caps')))"

definition substring :: "js_string \<Rightarrow> nat \<Rightarrow> nat \<Rightarrow> js_string" where
  "substring S a b = take (b - a) (drop a S)"

lemma match_advances:
  "match_rx r S i = Some (e, caps) \<Longrightarrow> i \<le> e"
  "match_seq rs S i = Some (e, caps) \<Longrightarrow> i \<le> e"
  by (induction r S i and rs S i arbitrary: e caps and e caps rule: match_rx_match_seq.induct)
     (fastforce split: if_splits option.splits)+

subsection \<open>String.prototype.split with a regular expression\<close>

text \<open>
  The loop of ECMAScript's split: \<open>p\<close> is the end of the last separator and \<open>q\<close> the
  index where a separator is tried next. No match at \<open>q\<close>, or a match that ends at
  \<open>p\<close>, moves \<open>q\<close> on by one. Any other match ending at \<open>e\<close> appends the piece from
  \<open>p\<close> to \<open>q\<close> and then every capture, and continues with \<open>p = q = e\<close>. After the loop
  the piece from \<open>p\<close> to the end is appended. The call of line 23 gives no limit.
\<close>

function split_loop :: "rx list \<Rightarrow> js_string \<Rightarrow> nat \<Rightarrow> nat \<Rightarrow> js_string list" where
  "split_loop R S p q =
     (if q < length S then
        (case match_seq R S q of
           None \<Rightarrow> split_loop R S p (Suc q)
         | Some (e, caps) \<Rightarrow>
             if e = p then split_loop R S p (Suc q)
             else substring S p q # map (\<lambda>(a, b). substring S a b) caps @ split_loop R S e e)
      else [substring S p (length S)])"
  by pat_completeness auto
termination
proof (relation "measure (\<lambda>(R, S, p, q). 2 * (length S - q) + (if p = q then 0 else 1))",
    goal_cases)
  case 1
  show ?case by simp
next
  case (2 R S p q)
  then have "length S - Suc q < length S - q" by simp
  then show ?case by (auto split: if_splits)
next
  case (3 R S p q x e caps)
  then have "length S - Suc q < length S - q" by simp
  then show ?case by (auto split: if_splits)
next
  case (4 R S p q x e caps)
  then have "q \<le> e" using match_advances(2) [of R S q e caps] by simp
  with 4 show ?case by (auto split: if_splits)
qed

definition split :: "rx list \<Rightarrow> js_string \<Rightarrow> js_string list" where
  "split R S =
     (if S = [] then (case match_seq R S 0 of None \<Rightarrow> [S] | Some z \<Rightarrow> [])
      else split_loop R S 0 0)"

text \<open>
  \<^verbatim>\<open>text.split(new RegExp(pattern, "gi"))\<close> for a modelled pattern and an ASCII text;
  \<open>None\<close> for every other pattern and text.
\<close>

definition ascii_split ::
  "js_string \<Rightarrow> js_string \<Rightarrow> (js_error + js_string option list) option" where
  "ascii_split pattern S =
     (if \<exists>c\<in>set S. 128 \<le> c then None
      else
        (case new_RegExp pattern of
           None \<Rightarrow> None
         | Some (Inl err) \<Rightarrow> Some (Inl err)
         | Some (Inr R) \<Rightarrow> Some (Inr (map Some (split R S)))))"

section \<open>Theorems about highlighting\<close>

subsection \<open>Which segments are highlighted\<close>

lemma those_Some:
  "those xs = Some ys \<Longrightarrow> xs = map Some ys"
  by (induction xs arbitrary: ys) (auto split: option.splits)

lemma highlightText_Inr:
  assumes "highlightText split_gi toLowerCase text kw = Some (Inr segs)" and "text \<noteq> []"
  shows "\<exists>strings.
           split_gi (js ''('' @ kw @ js '')'') text = Some (Inr (map Some strings))
         \<and> segs = map (\<lambda>part. if toLowerCase part = toLowerCase kw
                             then Span part else Text part) strings"
proof -
  from assms obtain parts strings where
    parts: "split_gi (js ''('' @ kw @ js '')'') text = Some (Inr parts)"
    and strings: "those parts = Some strings"
    and segs: "segs = map (\<lambda>part. if toLowerCase part = toLowerCase kw
                                   then Span part else Text part) strings"
    by (auto simp add: highlightText_def split: option.splits sum.splits)
  from strings have "parts = map Some strings"
    by (rule those_Some)
  with parts segs show ?thesis by blast
qed

lemma highlightText_nonempty:
  assumes "highlightText split_gi toLowerCase text kw = Some (Inr segs)" and "seg \<in> set segs"
  shows "text \<noteq> []"
  using assms by (auto simp add: highlightText_def)



subsection \<open>Parts are pieces of the text\<close>

text \<open>With the modelled \<open>split\<close>, every part is a piece of the text.\<close>

lemma sublist_substring: "sublist (substring S a b) S"
  unfolding substring_def
  by (meson sublist_drop sublist_order.order_trans sublist_take)

lemma split_loop_parts:
  "part \<in> set (split_loop R S p q) \<Longrightarrow> \<exists>a b. part = substring S a b"
proof (induction R S p q rule: split_loop.induct)
  case (1 R S p q)
  show ?case
  proof (cases "q < length S")
    case False
    with "1.prems" show ?thesis by auto
  next
    case True
    show ?thesis
    proof (cases "match_seq R S q")
      case None
      with True "1.prems" "1.IH"(1) show ?thesis by simp
    next
      case (Some z)
      obtain e caps where z: "z = (e, caps)" by (cases z)
      show ?thesis
      proof (cases "e = p")
        case True
        with \<open>q < length S\<close> Some z "1.prems" "1.IH"(2) show ?thesis by simp
      next
        case False
        with \<open>q < length S\<close> Some z "1.prems"
        consider "part = substring S p q"
          | "part \<in> (\<lambda>(a, b). substring S a b) ` set caps"
          | "part \<in> set (split_loop R S e e)"
          by auto
        then show ?thesis
        proof cases
          case 1
          then show ?thesis by blast
        next
          case 2
          then show ?thesis by auto
        next
          case 3
          with \<open>q < length S\<close> Some z False "1.IH"(3) show ?thesis by simp
        qed
      qed
    qed
  qed
qed

lemma split_parts:
  assumes "part \<in> set (split R S)"
  shows "sublist part S"
proof (cases "S = []")
  case True
  with assms show ?thesis by (auto simp add: split_def split: option.splits)
next
  case False
  with assms obtain a b where "part = substring S a b"
    using split_loop_parts [of part R S 0 0] by (auto simp add: split_def)
  then show ?thesis by (simp add: sublist_substring)
qed

lemma highlight_segments_are_pieces:
  assumes "highlightText ascii_split toLowerCase text kw = Some (Inr segs)"
    and "seg \<in> set segs"
  shows "sublist (node_text seg) text"
proof -
  from assms have "text \<noteq> []"
    by (rule highlightText_nonempty)
  with assms(1) obtain strings where
    parts: "ascii_split (js ''('' @ kw @ js '')'') text = Some (Inr (map Some strings))"
    and segs: "segs = map (\<lambda>part. if toLowerCase part = toLowerCase kw
                                   then Span part else Text part) strings"
    using highlightText_Inr by blast
  from parts obtain R where "map Some strings = map Some (split R text)"
    by (auto simp add: ascii_split_def split: if_splits option.splits sum.splits)
  then have strings: "strings = split R text"
    by (simp add: inj_map_eq_map)
  from assms(2) segs have "node_text seg \<in> set strings"
    by auto
  with strings show ?thesis
    by (simp add: split_parts)
qed

subsection \<open>Round trip\<close>

text \<open>
  With the modelled \<open>split\<close> and a keyword without parentheses, the pattern is one group
  without inner groups, every match has its whole extent as its only capture, and the
  segments concatenate to the text. The dot is still a wildcard there.
\<close>

lemma parse_groups_atoms:
  assumes "of_char CHR ''('' \<notin> set cs" and "of_char CHR '')'' \<notin> set cs"
  shows "parse_groups (cs @ rest) cur stack = parse_groups rest (rev (map atom cs) @ cur) stack"
  using assms by (induction cs arbitrary: cur) auto

lemma new_RegExp_no_parens:
  assumes "new_RegExp (js ''('' @ kw @ js '')'') = Some (Inr R)"
    and "of_char CHR ''('' \<notin> set kw" and "of_char CHR '')'' \<notin> set kw"
  shows "R = [Group (map atom kw)]"
proof -
  have "parse_groups (js ''('' @ kw @ js '')'') [] [] = parse_groups (kw @ js '')'') [] [[]]"
    by (simp add: js_def)
  also have "\<dots> = parse_groups (js '')'') (rev (map atom kw) @ []) [[]]"
    using assms(2,3) by (rule parse_groups_atoms)
  also have "\<dots> = Inr [Group (map atom kw)]"
    by (simp add: rev_map js_def)
  finally show ?thesis
    using assms(1) by (simp add: new_RegExp_def split: if_splits)
qed

lemma match_seq_atoms:
  assumes "match_seq (map atom cs) S i = Some (e, caps)"
  shows "caps = []"
  using assms
  by (induction cs arbitrary: i caps) (auto simp add: atom_def split: if_splits option.splits)

lemma match_whole_group:
  assumes "match_seq [Group (map atom cs)] S q = Some (e, caps)"
  shows "caps = [(q, e)]"
  using assms by (auto split: option.splits dest: match_seq_atoms)

lemma substring_chain:
  assumes "p \<le> q" and "q \<le> e"
  shows "substring S p q @ substring S q e @ drop e S = drop p S"
proof -
  have "take (e - q) (drop q S) @ drop e S = drop q S"
    using assms(2) by (metis append_take_drop_id drop_drop le_add_diff_inverse2)
  moreover have "take (q - p) (drop p S) @ drop q S = drop p S"
    using assms(1) by (metis append_take_drop_id drop_drop le_add_diff_inverse2)
  ultimately show ?thesis by (simp add: substring_def)
qed

lemma split_loop_concat:
  assumes "\<And>q e caps. match_seq R S q = Some (e, caps) \<Longrightarrow> caps = [(q, e)]"
    and "p \<le> q"
  shows "concat (split_loop R S p q) = drop p S"
  using assms
proof (induction R S p q rule: split_loop.induct)
  case (1 R S p q)
  note whole = "1.prems"(1)
  show ?case
  proof (cases "q < length S")
    case False
    then show ?thesis by (simp add: substring_def)
  next
    case True
    show ?thesis
    proof (cases "match_seq R S q")
      case None
      with True "1.IH"(1) [OF True None whole] "1.prems"(2) show ?thesis by simp
    next
      case (Some z)
      obtain e caps where z: "z = (e, caps)" by (cases z)
      show ?thesis
      proof (cases "e = p")
        case True
        with \<open>q < length S\<close> Some z "1.IH"(2) [OF \<open>q < length S\<close> Some z [symmetric] True whole]
          "1.prems"(2)
        show ?thesis by simp
      next
        case False
        from Some z have m: "match_seq R S q = Some (e, caps)" by simp
        then have caps: "caps = [(q, e)]" by (rule whole)
        from m have "q \<le> e" by (rule match_advances(2))
        have "concat (split_loop R S e e) = drop e S"
          using "1.IH"(3) [OF \<open>q < length S\<close> Some z [symmetric] False whole] by simp
        with \<open>q < length S\<close> m False caps show ?thesis
          by (simp add: substring_chain [OF "1.prems"(2) \<open>q \<le> e\<close>])
      qed
    qed
  qed
qed

lemma highlight_roundtrip_without_parentheses:
  assumes "highlightText ascii_split toLowerCase text kw = Some (Inr segs)"
    and "of_char CHR ''('' \<notin> set kw" and "of_char CHR '')'' \<notin> set kw"
  shows "concat (map node_text segs) = text"
proof (cases "text = []")
  case True
  with assms(1) show ?thesis by (simp add: highlightText_def)
next
  case False
  with assms(1) obtain strings where
    parts: "ascii_split (js ''('' @ kw @ js '')'') text = Some (Inr (map Some strings))"
    and segs: "segs = map (\<lambda>part. if toLowerCase part = toLowerCase kw
                                   then Span part else Text part) strings"
    using highlightText_Inr by blast
  have texts: "map node_text segs = strings"
    unfolding segs by (induction strings) simp_all
  from parts obtain R where R: "new_RegExp (js ''('' @ kw @ js '')'') = Some (Inr R)"
    and "map Some strings = map Some (split R text)"
    by (auto simp add: ascii_split_def split: if_splits option.splits sum.splits)
  then have strings: "strings = split R text"
    by (simp add: inj_map_eq_map)
  from R assms(2,3)
  have shape: "R = [Group (map atom kw)]"
    by (rule new_RegExp_no_parens)
  have whole: "caps = [(q, e)]" if "match_seq R text q = Some (e, caps)" for q e caps
    using that unfolding shape by (rule match_whole_group)
  have "concat (split_loop R text 0 0) = drop 0 text"
    by (rule split_loop_concat) (simp_all add: whole)
  with False show ?thesis by (simp add: texts strings split_def)
qed

text \<open>
  C2, evaluated on the code. The keyword is not escaped. With the keyword \<^verbatim>\<open>(a)\<close> the
  pattern has two nested groups, each match is appended twice, and the segments of the
  text \<^verbatim>\<open>(a)\<close> concatenate to \<^verbatim>\<open>(aa)\<close>, none of them highlighted. With the keyword
  \<^verbatim>\<open>(\<close> the pattern does not compile and the function throws.
\<close>

theorem highlight_unescaped_keyword:
  "highlightText ascii_split ascii_toLowerCase (js ''(a)'') (js ''(a)'')
     = Some (Inr [Text (js ''(''), Text (js ''a''), Text (js ''a''), Text (js '')'')])
   \<and> concat (map node_text [Text (js ''(''), Text (js ''a''), Text (js ''a''), Text (js '')'')])
     = js ''(aa)''
   \<and> highlightText ascii_split ascii_toLowerCase (js ''a'') (js ''('') = Some (Inl SyntaxError)"
  by code_simp

section \<open>View counts in VideoCard.jsx\<close>

subsection \<open>The number arithmetic of formatViews\<close>

text \<open>
  A JavaScript number is an IEEE 754 binary64 value, and \<^verbatim>\<open>count / 1000\<close> is the exact
  quotient rounded to the nearest such value, ties to the even significand. A view count
  is an integer, exact as a number below \<open>2 ^ 53\<close>. \<open>binary64_div n d\<close> is the value of
  \<^verbatim>\<open>n / d\<close> for integers with \<open>0 < d \<le> n\<close>, as a real number: with
  \<open>2 ^ (k - 1) \<le> n / d < 2 ^ k\<close>, the quotient is rounded to a multiple of
  \<open>2 ^ (k - 53)\<close>.
\<close>

definition round_half_even :: "real \<Rightarrow> int" where
  "round_half_even y =
     (let f = \<lfloor>y\<rfloor>; r = y - of_int f
      in if r < 1 / 2 then f else if 1 / 2 < r then f + 1 else if even f then f else f + 1)"

definition binary64_div :: "nat \<Rightarrow> nat \<Rightarrow> real" where
  "binary64_div n d =
     (let x = of_nat n / of_nat d; k = floorlog 2 (n div d)
      in if k \<le> 53 then of_int (round_half_even (x * 2 ^ (53 - k))) / 2 ^ (53 - k)
         else of_int (round_half_even (x / 2 ^ (k - 53))) * 2 ^ (k - 53))"

text \<open>
  \<^verbatim>\<open>x.toFixed(1)\<close> for \<open>0 \<le> x < 10 ^ 21\<close> (ECMAScript, Number.prototype.toFixed):
  let \<open>t\<close> be the integer for which \<open>t / 10 - x\<close> is as close to zero as possible, the
  larger one if there are two; the result is the decimal digits of \<open>t\<close> with a point
  before the last digit.
\<close>

definition tenths :: "real \<Rightarrow> nat" where
  "tenths x = nat \<lfloor>x * 10 + 1 / 2\<rfloor>"

fun digits :: "nat \<Rightarrow> string" where
  "digits n =
     (if n < 10 then [''0123456789'' ! n]
      else digits (n div 10) @ [''0123456789'' ! (n mod 10)])"

declare digits.simps [simp del]

definition toFixed1 :: "real \<Rightarrow> string" where
  "toFixed1 x = digits (tenths x div 10) @ ''.'' @ digits (tenths x mod 10)"

subsection \<open>formatViews\<close>

text \<open>
  Lines 2 to 9. The first two branches return a string; the last returns \<^verbatim>\<open>count\<close>
  itself, a number. The strings built here hold only digits, a point and a letter, and
  are written as strings of ASCII characters.
\<close>

datatype js_value = Num nat | Str string

definition formatViews :: "nat \<Rightarrow> js_value" where
  "formatViews count =
     (if count \<ge> 1000000 then Str (toFixed1 (binary64_div count 1000000) @ ''M'')
      else if count \<ge> 1000 then Str (toFixed1 (binary64_div count 1000) @ ''K'')
      else Num count)"

subsection \<open>formatViewCount as the specification words it\<close>

text \<open>
  The specification's reading, for comparison: the exact quotient rounded half-up to one
  decimal place, and a string in every branch.
\<close>

definition spec_formatViewCount :: "nat \<Rightarrow> string" where
  "spec_formatViewCount n =
     (if n \<ge> 1000000 then toFixed1 (real n / 1000000) @ ''M''
      else if n \<ge> 1000 then toFixed1 (real n / 1000) @ ''K''
      else digits n)"

section \<open>Theorems about view counts\<close>

subsection \<open>The error of the binary64 quotient\<close>

lemma round_half_even_error: "\<bar>real_of_int (round_half_even y) - y\<bar> \<le> 1 / 2"
proof -
  have "real_of_int \<lfloor>y\<rfloor> \<le> y" and "y < real_of_int \<lfloor>y\<rfloor> + 1"
    by linarith+
  then show ?thesis
    by (auto simp add: round_half_even_def Let_def)
qed

lemma binary64_div_error:
  assumes "0 < d" and "d \<le> n" and "n < 2 ^ 53"
  shows "\<bar>binary64_div n d - real n / real d\<bar> * real d < 1"
proof -
  define v where "v = n div d"
  define k where "k = floorlog 2 v"
  define s where "s = 53 - k"
  define x where "x = real n / real d"
  define m where "m = round_half_even (x * 2 ^ s)"
  define T :: nat where "T = 2 ^ 53"
  have n_less: "n < T"
    using assms(3) by (simp add: T_def)
  have v_pos: "0 < v"
    using assms(1,2) by (simp add: v_def div_greater_zero_iff)
  have v_less: "v < 2 ^ 53"
    using assms(3) div_le_dividend [of n d] unfolding v_def by linarith
  have k_le: "k \<le> 53"
    unfolding k_def using v_less by (intro floorlog_leI) simp_all
  have low: "2 ^ (k - 1) \<le> v"
    unfolding k_def using floorlog_bounds [of v 2] v_pos by simp
  have "k \<noteq> 0"
    unfolding k_def floorlog_eq_zero_iff using v_pos by simp
  then have k_pos: "0 < k" by simp
  have D: "binary64_div n d = real_of_int m / 2 ^ s"
    using k_le by (simp add: binary64_div_def Let_def m_def x_def s_def k_def v_def)
  have "\<bar>real_of_int m - x * 2 ^ s\<bar> \<le> 1 / 2"
    unfolding m_def by (rule round_half_even_error)
  moreover have "(real_of_int m / 2 ^ s - x) * 2 ^ s = real_of_int m - x * 2 ^ s"
    by (simp add: field_simps)
  then have "\<bar>real_of_int m / 2 ^ s - x\<bar> * 2 ^ s = \<bar>real_of_int m - x * 2 ^ s\<bar>"
    by (metis abs_mult_pos zero_le_numeral zero_le_power)
  ultimately have "\<bar>real_of_int m / 2 ^ s - x\<bar> * 2 ^ s \<le> 1 / 2"
    by simp
  then have err: "\<bar>binary64_div n d - x\<bar> * 2 ^ s * 2 \<le> 1"
    by (simp add: D)
  have "v * d \<le> n"
    by (simp add: v_def)
  with low have "2 ^ (k - 1) * d \<le> n"
    by (meson le_trans mult_le_mono1)
  then have "2 ^ (k - 1) * d < T"
    using n_less by linarith
  moreover have "T = 2 ^ (k - 1) * (2 ^ s * 2)"
  proof -
    have "(k - 1) + (s + 1) = 53"
      using k_le k_pos by (simp add: s_def)
    then have "T = 2 ^ ((k - 1) + (s + 1))"
      by (simp only: T_def)
    then show ?thesis
      by (simp only: power_add power_one_right)
  qed
  ultimately have "2 ^ (k - 1) * d < 2 ^ (k - 1) * (2 ^ s * 2)"
    by simp
  then have "d < 2 ^ s * 2"
    by simp
  then have d_less: "real d < 2 ^ s * 2"
    by (metis of_nat_less_iff of_nat_mult of_nat_numeral of_nat_power)
  have "\<bar>binary64_div n d - x\<bar> * real d \<le> \<bar>binary64_div n d - x\<bar> * (2 ^ s * 2)"
    using d_less by (intro mult_left_mono) simp_all
  show ?thesis
  proof (cases "binary64_div n d = x")
    case True
    then show ?thesis by (simp add: x_def)
  next
    case False
    then have "0 < \<bar>binary64_div n d - x\<bar>" by simp
    then have "\<bar>binary64_div n d - x\<bar> * real d < \<bar>binary64_div n d - x\<bar> * (2 ^ s * 2)"
      using d_less by (intro mult_strict_left_mono) simp_all
    with err show ?thesis by (simp add: x_def mult.assoc)
  qed
qed


lemma tenths_exact_quotient:
  assumes "0 < d"
  shows "tenths (real n / real d) = (20 * n + d) div (2 * d)"
proof -
  have "real n / real d * 10 + 1 / 2 = real (20 * n + d) / real (2 * d)"
    using assms by (simp add: field_simps)
  then have "\<lfloor>real n / real d * 10 + 1 / 2\<rfloor> = int ((20 * n + d) div (2 * d))"
    by (simp only: floor_divide_of_nat_eq)
  then show ?thesis
    by (simp only: tenths_def nat_int)
qed

lemma tenths_binary64_div:
  assumes "20 dvd d" and "0 < d" and "d \<le> n" and "n < 2 ^ 53"
  shows "tenths (binary64_div n d) = tenths (real n / real d)
       \<or> ((20 * n + d) mod (2 * d) = 0
          \<and> tenths (binary64_div n d) + 1 = tenths (real n / real d))"
proof -
  define y where "y = binary64_div n d"
  define h where "h = (20 * n + d) div (2 * d)"
  define r where "r = (20 * n + d) mod (2 * d)"
  define E where "E = (y - real n / real d) * real d"
  define Z where "Z = (y * 10 + 1 / 2 - real h) * (2 * real d)"
  have hx: "tenths (real n / real d) = h"
    unfolding h_def using assms(2) by (rule tenths_exact_quotient)
  have "\<bar>E\<bar> < 1"
    using binary64_div_error [OF assms(2,3,4)] assms(2)
    by (simp add: E_def y_def abs_mult)
  then have E: "- 1 < E" "E < 1"
    by linarith+
  have split_N: "20 * n + d = 2 * d * h + r"
    by (simp add: h_def r_def)
  have "real (20 * n + d) = real (2 * d * h + r)"
    by (simp only: split_N)
  then have N_real: "20 * real n + real d = 2 * real d * real h + real r"
    by simp
  have "E = y * real d - real n"
    using assms(2) by (simp add: E_def field_simps)
  then have Z: "Z = real r + 20 * E"
    using N_real by (simp add: Z_def algebra_simps)
  have d20: "20 \<le> d"
    using assms(1,2) by (simp add: dvd_imp_le)
  have h10: "10 \<le> h"
  proof -
    have "10 * (2 * d) \<le> 20 * n + d"
      using assms(3) by simp
    then show ?thesis
      unfolding h_def using assms(2) by (simp add: less_eq_div_iff_mult_less_eq)
  qed
  have r_less: "r < 2 * d"
    using assms(2) by (simp add: r_def)
  have r_dvd: "20 dvd r"
    unfolding r_def using assms(1) by (intro dvd_mod) simp_all
  have r_top: "r + 20 \<le> 2 * d"
  proof -
    have "20 dvd 2 * d - r"
      using r_dvd assms(1) by (simp add: dvd_diff_nat)
    moreover have "0 < 2 * d - r"
      using r_less by simp
    ultimately have "20 \<le> 2 * d - r"
      by (rule dvd_imp_le)
    then show ?thesis by simp
  qed
  have d_pos: "0 < 2 * real d"
    using assms(2) by simp
  have Y: "y * 10 + 1 / 2 = real h + Z / (2 * real d)"
    using assms(2) by (simp add: Z_def)
  show ?thesis
  proof (cases "r = 0")
    case False
    with r_dvd have "20 \<le> r"
      by (simp add: dvd_imp_le)
    then have "0 < Z" and "Z < 2 * real d"
      using E r_top by (simp_all add: Z)
    then have "0 < Z / (2 * real d)" and "Z / (2 * real d) < 1"
      using d_pos by simp_all
    then have "\<lfloor>y * 10 + 1 / 2\<rfloor> = int h"
      unfolding Y by (intro floor_unique) simp_all
    then have "tenths y = h"
      by (simp add: tenths_def)
    then show ?thesis
      by (simp add: hx y_def)
  next
    case True
    then have "- (2 * real d) < Z" and "Z < 2 * real d"
      using E d20 by (simp_all add: Z)
    then have "- 1 < Z / (2 * real d)" and "Z / (2 * real d) < 1"
      using d_pos by (simp_all add: pos_less_divide_eq pos_divide_less_eq)
    then have "real_of_int (int h - 1) < y * 10 + 1 / 2" and "y * 10 + 1 / 2 < real_of_int (int h + 1)"
      unfolding Y by simp_all
    then have "int h - 1 \<le> \<lfloor>y * 10 + 1 / 2\<rfloor>" and "\<lfloor>y * 10 + 1 / 2\<rfloor> < int h + 1"
      by (simp_all only: le_floor_iff floor_less_iff less_imp_le)
    then have "tenths y = h \<or> tenths y + 1 = h"
      using h10 unfolding tenths_def by linarith
    with True show ?thesis
      by (auto simp add: hx y_def r_def)
  qed
qed

subsection \<open>Ties\<close>

text \<open>
  The exact quotient lies halfway between two tenths only when \<open>n mod 100 = 50\<close> (for the
  divisor 1000) or \<open>n mod 100000 = 50000\<close> (for the divisor 1000000).
\<close>

lemma tie_thousand:
  assumes "2000 dvd 20 * n + (1000::nat)"
  shows "n mod 100 = 50"
proof -
  from assms obtain k where k: "20 * n + 1000 = 2000 * k"
    by (auto simp add: dvd_def)
  then have "n = 100 * (k - 1) + 50" by linarith
  then have "n mod 100 = (100 * (k - 1) + 50) mod 100" by simp
  then show ?thesis by (simp only: mod_mult_self4) simp
qed

lemma tie_million:
  assumes "2000000 dvd 20 * n + (1000000::nat)"
  shows "n mod 100000 = 50000"
proof -
  from assms obtain k where k: "20 * n + 1000000 = 2000000 * k"
    by (auto simp add: dvd_def)
  then have "n = 100000 * (k - 1) + 50000" by linarith
  then have "n mod 100000 = (100000 * (k - 1) + 50000) mod 100000" by simp
  then show ?thesis by (simp only: mod_mult_self4) simp
qed

subsection \<open>What formatViews returns\<close>

text \<open>
  C9, as the code has it. The rounding is \<^verbatim>\<open>toFixed(1)\<close> of the binary64 quotient, not
  half-up rounding of the exact one: 1450 / 1000 is the binary64 value just below 1.45,
  so the result is 1.4K, where half-up rounding of 1.45 gives 1.5K.
\<close>

theorem formatViews_rounds_the_binary64_quotient:
  "formatViews 1450 = Str ''1.4K'' \<and> spec_formatViewCount 1450 = ''1.5K''"
  by (simp add: formatViews_def spec_formatViewCount_def toFixed1_def tenths_def
      binary64_div_def round_half_even_def compute_floorlog Let_def digits.simps)

lemma formatViews_examples:
  "formatViews 999 = Num 999" "formatViews 1500 = Str ''1.5K''"
  "formatViews 2500000 = Str ''2.5M''"
  by (simp_all add: formatViews_def toFixed1_def tenths_def
      binary64_div_def round_half_even_def compute_floorlog Let_def digits.simps)

text \<open>
  C9, amended. For a count below \<open>2 ^ 53\<close>: below 1000 the result is the number itself;
  from 1000 on it is a string that ends in K (below 1000000) or M, and it is the
  specification's string whenever the exact quotient is not halfway between two tenths.
  At such a tie the tenth shown is the half-up one or the one below it. The three
  examples of the specification hold, the first with the number 999 for the string.
\<close>

theorem formatViews_rounding:
  assumes "n < 2 ^ 53"
  shows "(n < 1000 \<longrightarrow> formatViews n = Num n)
       \<and> (1000 \<le> n \<and> n < 1000000 \<and> n mod 100 \<noteq> 50 \<longrightarrow>
            formatViews n = Str (spec_formatViewCount n))
       \<and> (1000000 \<le> n \<and> n mod 100000 \<noteq> 50000 \<longrightarrow>
            formatViews n = Str (spec_formatViewCount n))
       \<and> (1000 \<le> n \<and> n < 1000000 \<longrightarrow>
            formatViews n = Str (toFixed1 (binary64_div n 1000) @ ''K'')
            \<and> (tenths (binary64_div n 1000) = tenths (real n / 1000)
               \<or> tenths (binary64_div n 1000) + 1 = tenths (real n / 1000)))
       \<and> (1000000 \<le> n \<longrightarrow>
            formatViews n = Str (toFixed1 (binary64_div n 1000000) @ ''M'')
            \<and> (tenths (binary64_div n 1000000) = tenths (real n / 1000000)
               \<or> tenths (binary64_div n 1000000) + 1 = tenths (real n / 1000000)))
       \<and> formatViews 999 = Num 999
       \<and> formatViews 1500 = Str ''1.5K''
       \<and> formatViews 2500000 = Str ''2.5M''"
proof -
  have K: "tenths (binary64_div n 1000) = tenths (real n / 1000)
         \<or> n mod 100 = 50 \<and> tenths (binary64_div n 1000) + 1 = tenths (real n / 1000)"
    if "1000 \<le> n"
    using tenths_binary64_div [of 1000 n] that assms by (auto dest: tie_thousand)
  have M: "tenths (binary64_div n 1000000) = tenths (real n / 1000000)
         \<or> n mod 100000 = 50000
           \<and> tenths (binary64_div n 1000000) + 1 = tenths (real n / 1000000)"
    if "1000000 \<le> n"
    using tenths_binary64_div [of 1000000 n] that assms by (auto dest: tie_million)
  have small: "n < 1000 \<longrightarrow> formatViews n = Num n"
    by (simp add: formatViews_def)
  have exact_K: "1000 \<le> n \<and> n < 1000000 \<and> n mod 100 \<noteq> 50 \<longrightarrow>
            formatViews n = Str (spec_formatViewCount n)"
    using K by (auto simp add: formatViews_def spec_formatViewCount_def toFixed1_def)
  have exact_M: "1000000 \<le> n \<and> n mod 100000 \<noteq> 50000 \<longrightarrow>
            formatViews n = Str (spec_formatViewCount n)"
    using M by (auto simp add: formatViews_def spec_formatViewCount_def toFixed1_def)
  have near_K: "1000 \<le> n \<and> n < 1000000 \<longrightarrow>
            formatViews n = Str (toFixed1 (binary64_div n 1000) @ ''K'')
            \<and> (tenths (binary64_div n 1000) = tenths (real n / 1000)
               \<or> tenths (binary64_div n 1000) + 1 = tenths (real n / 1000))"
    using K by (auto simp add: formatViews_def)
  have near_M: "1000000 \<le> n \<longrightarrow>
            formatViews n = Str (toFixed1 (binary64_div n 1000000) @ ''M'')
            \<and> (tenths (binary64_div n 1000000) = tenths (real n / 1000000)
               \<or> tenths (binary64_div n 1000000) + 1 = tenths (real n / 1000000))"
    using M by (auto simp add: formatViews_def)
  show ?thesis
    by (intro conjI small exact_K exact_M near_K near_M formatViews_examples)
qed

theorem formatViews_rounding_witness:
  "(1234567::nat) < 2 ^ 53
   \<and> formatViews 1234567 = Str (spec_formatViewCount 1234567)
   \<and> spec_formatViewCount 1234567 = ''1.2M''"
proof -
  have small: "(1234567::nat) < 2 ^ 53" by simp
  have spec: "spec_formatViewCount 1234567 = ''1.2M''"
    by (simp add: spec_formatViewCount_def toFixed1_def tenths_def digits.simps)
  have not_tie: "1000000 \<le> (1234567::nat) \<and> (1234567::nat) mod 100000 \<noteq> 50000"
    by simp
  from formatViews_rounding [OF small]
  have "1000000 \<le> (1234567::nat) \<and> (1234567::nat) mod 100000 \<noteq> 50000
      \<longrightarrow> formatViews 1234567 = Str (spec_formatViewCount 1234567)"
    by blast
  with not_tie have "formatViews 1234567 = Str (spec_formatViewCount 1234567)"
    by (rule rev_mp)
  with small spec show ?thesis by (simp only: simp_thms)
qed

end
